theory Spec2Isabelle
  imports Main
begin

section \<open>Python values, errors and containers\<close>

text \<open>
  The log of \<^verbatim>\<open>interaction_log.py\<close> stores dictionaries from field names to arbitrary
  Python values (\<^verbatim>\<open>**kwargs: Any\<close>). The values are modelled by the JSON-like universe
  below (floating-point numbers are left out). Lists and dictionaries are unhashable
  in Python: using one as a dictionary key raises \<^verbatim>\<open>TypeError\<close>.
\<close>

datatype pyval =
    VNone
  | VBool bool
  | VInt int
  | VStr string
  | VList "pyval list"
  | VDict "(string \<times> pyval) list"

datatype error = IndexError | ZeroDivisionError | TypeError

text \<open>An entry is a Python \<^verbatim>\<open>dict[str, Any]\<close>: an insertion-ordered association list.\<close>

type_synonym entry = "(string \<times> pyval) list"

type_synonym counts = "(pyval \<times> int) list"

fun hashable :: "pyval \<Rightarrow> bool" where
  "hashable (VList xs) = False"
| "hashable (VDict d) = False"
| "hashable v = True"

text \<open>Python compares dictionary keys with \<^verbatim>\<open>==\<close>, under which \<^verbatim>\<open>True == 1\<close> and
  \<^verbatim>\<open>False == 0\<close>.\<close>

fun key_norm :: "pyval \<Rightarrow> pyval" where
  "key_norm (VBool b) = VInt (if b then 1 else 0)"
| "key_norm v = v"

definition py_eq :: "pyval \<Rightarrow> pyval \<Rightarrow> bool" where
  "py_eq a b = (key_norm a = key_norm b)"

text \<open>\<^verbatim>\<open>d[k] = v\<close> on a dictionary with string keys: an existing key keeps its position.\<close>

fun dict_setitem :: "entry \<Rightarrow> string \<Rightarrow> pyval \<Rightarrow> entry" where
  "dict_setitem [] k v = [(k, v)]"
| "dict_setitem ((k', v') # d) k v =
     (if k' = k then (k', v) # d else (k', v') # dict_setitem d k v)"

text \<open>\<^verbatim>\<open>d.get(t, dflt)\<close> and \<^verbatim>\<open>d[t] = c\<close> on the \<^verbatim>\<open>by_type\<close> dictionary, for a hashable key.\<close>

fun counts_get :: "counts \<Rightarrow> pyval \<Rightarrow> int \<Rightarrow> int" where
  "counts_get [] t dflt = dflt"
| "counts_get ((k, c) # d) t dflt = (if py_eq k t then c else counts_get d t dflt)"

fun counts_setitem :: "counts \<Rightarrow> pyval \<Rightarrow> int \<Rightarrow> counts" where
  "counts_setitem [] t c = [(t, c)]"
| "counts_setitem ((k, c') # d) t c =
     (if py_eq k t then (k, c) # d else (k, c') # counts_setitem d t c)"

text \<open>\<^verbatim>\<open>a % b\<close> on Python integers: floor modulo, \<^verbatim>\<open>ZeroDivisionError\<close> for \<^verbatim>\<open>b == 0\<close>.\<close>

definition py_mod :: "int \<Rightarrow> int \<Rightarrow> error + int" where
  "py_mod a b = (if b = 0 then Inl ZeroDivisionError else Inr (a mod b))"

text \<open>\<^verbatim>\<open>xs[i]\<close> and \<^verbatim>\<open>xs[i] = v\<close> on a Python list: a negative index counts from the end,
  an index out of range raises \<^verbatim>\<open>IndexError\<close>.\<close>

definition list_getitem :: "'a list \<Rightarrow> int \<Rightarrow> error + 'a" where
  "list_getitem xs i =
     (if 0 \<le> i \<and> i < int (length xs) then Inr (xs ! nat i)
      else if - int (length xs) \<le> i \<and> i < 0 then Inr (xs ! nat (int (length xs) + i))
      else Inl IndexError)"

definition list_setitem :: "'a list \<Rightarrow> int \<Rightarrow> 'a \<Rightarrow> error + 'a list" where
  "list_setitem xs i v =
     (if 0 \<le> i \<and> i < int (length xs) then Inr (xs[nat i := v])
      else if - int (length xs) \<le> i \<and> i < 0 then Inr (xs[nat (int (length xs) + i) := v])
      else Inl IndexError)"

text \<open>\<^verbatim>\<open>range(n)\<close>: empty for \<^verbatim>\<open>n <= 0\<close>.\<close>

definition py_range :: "int \<Rightarrow> int list" where
  "py_range n = map int [0..<nat n]"

section \<open>The interaction log\<close>

record InteractionLog =
  buffer :: "entry option list"
  max_size :: int
  head :: int
  count :: int

text \<open>\<^verbatim>\<open>__init__\<close>: \<^verbatim>\<open>[None] * max_size\<close> is the empty list for \<^verbatim>\<open>max_size <= 0\<close>; the source
  has no check of \<^verbatim>\<open>max_size\<close> and no \<^verbatim>\<open>raise\<close>.\<close>

definition init :: "int \<Rightarrow> error + InteractionLog" where
  "init m = Inr \<lparr>buffer = replicate (nat m) None, max_size = m, head = 0, count = 0\<rparr>"

text \<open>The dictionary display \<^verbatim>\<open>{"timestamp": now, **kwargs}\<close>, where \<open>now\<close> stands for
  \<^verbatim>\<open>datetime.now(timezone.utc).isoformat()\<close>, an input of the model.\<close>

definition new_entry :: "string \<Rightarrow> entry \<Rightarrow> entry" where
  "new_entry now kwargs =
     fold (\<lambda>(k, v) d. dict_setitem d k v) kwargs [(''timestamp'', VStr now)]"

definition add :: "string \<Rightarrow> entry \<Rightarrow> InteractionLog \<Rightarrow> error + InteractionLog" where
  "add now kwargs s =
     (let entry = new_entry now kwargs in
      case list_setitem (buffer s) (head s) (Some entry) of
        Inl e \<Rightarrow> Inl e
      | Inr buf \<Rightarrow>
          (case py_mod (head s + 1) (max_size s) of
             Inl e \<Rightarrow> Inl e
           | Inr h \<Rightarrow>
               Inr (s\<lparr>buffer := buf, head := h,
                      count := (if count s < max_size s then count s + 1 else count s)\<rparr>)))"

fun get_recent_loop ::
  "entry option list \<Rightarrow> int \<Rightarrow> int \<Rightarrow> int list \<Rightarrow> entry list \<Rightarrow> error + entry list" where
  "get_recent_loop buf m start [] result = Inr result"
| "get_recent_loop buf m start (i # rest) result =
     (case py_mod (start + i) m of
        Inl e \<Rightarrow> Inl e
      | Inr idx \<Rightarrow>
          (case list_getitem buf idx of
             Inl e \<Rightarrow> Inl e
           | Inr entry \<Rightarrow>
               get_recent_loop buf m start rest
                 (case entry of None \<Rightarrow> result | Some d \<Rightarrow> result @ [d])))"

definition get_recent :: "int \<Rightarrow> InteractionLog \<Rightarrow> error + entry list" where
  "get_recent n s =
     (let cnt = min n (count s) in
      case py_mod (head s - cnt + max_size s) (max_size s) of
        Inl e \<Rightarrow> Inl e
      | Inr start \<Rightarrow> get_recent_loop (buffer s) (max_size s) start (py_range cnt) [])"

text \<open>The body of the loop of \<^verbatim>\<open>get_stats\<close> after the slot is read:
  \<^verbatim>\<open>if entry and "type" in entry: t = entry["type"]; by_type[t] = by_type.get(t, 0) + 1\<close>.
  \<^verbatim>\<open>None\<close> and the empty dictionary are falsy.\<close>

definition tally :: "entry option \<Rightarrow> counts \<Rightarrow> error + counts" where
  "tally entry by_type =
     (case entry of
        None \<Rightarrow> Inr by_type
      | Some d \<Rightarrow>
          if d \<noteq> [] then
            (case map_of d ''type'' of
               None \<Rightarrow> Inr by_type
             | Some t \<Rightarrow>
                 if hashable t
                 then Inr (counts_setitem by_type t (counts_get by_type t 0 + 1))
                 else Inl TypeError)
          else Inr by_type)"

fun get_stats_loop :: "InteractionLog \<Rightarrow> int list \<Rightarrow> counts \<Rightarrow> error + counts" where
  "get_stats_loop s [] by_type = Inr by_type"
| "get_stats_loop s (i # rest) by_type =
     (case py_mod (head s - count s + i + max_size s) (max_size s) of
        Inl e \<Rightarrow> Inl e
      | Inr idx \<Rightarrow>
          (case list_getitem (buffer s) idx of
             Inl e \<Rightarrow> Inl e
           | Inr entry \<Rightarrow>
               (case tally entry by_type of
                  Inl e \<Rightarrow> Inl e
                | Inr by_type' \<Rightarrow> get_stats_loop s rest by_type')))"

record stats =
  total_stat :: int
  by_type :: counts

definition get_stats :: "InteractionLog \<Rightarrow> error + stats" where
  "get_stats s =
     (case get_stats_loop s (py_range (count s)) [] of
        Inl e \<Rightarrow> Inl e
      | Inr bt \<Rightarrow> Inr \<lparr>total_stat = count s, by_type = bt\<rparr>)"

definition clear :: "InteractionLog \<Rightarrow> InteractionLog" where
  "clear s = s\<lparr>head := 0, count := 0\<rparr>"

section \<open>Sequences of calls\<close>

datatype call = Add string entry | Clear

fun step :: "InteractionLog \<Rightarrow> call \<Rightarrow> error + InteractionLog" where
  "step s (Add now kwargs) = add now kwargs s"
| "step s Clear = Inr (clear s)"

fun run :: "InteractionLog \<Rightarrow> call list \<Rightarrow> error + InteractionLog" where
  "run s [] = Inr s"
| "run s (c # cs) = (case step s c of Inl e \<Rightarrow> Inl e | Inr s' \<Rightarrow> run s' cs)"

text \<open>A log constructed with \<^verbatim>\<open>InteractionLog(max_size=m)\<close>, then the calls in order.\<close>

definition session :: "int \<Rightarrow> call list \<Rightarrow> error + InteractionLog" where
  "session m cs = (case init m of Inl e \<Rightarrow> Inl e | Inr s \<Rightarrow> run s cs)"

section \<open>Specification-level notions\<close>

text \<open>The last \<open>k\<close> elements of a list (the whole list when it is shorter).\<close>

definition lastn :: "nat \<Rightarrow> 'a list \<Rightarrow> 'a list" where
  "lastn k xs = drop (length xs - k) xs"

text \<open>The logically valid slots of a log, oldest first: slot \<open>i\<close> of the window is the
  physical slot \<open>(head - count + i) mod max_size\<close>.\<close>

definition slot :: "InteractionLog \<Rightarrow> nat \<Rightarrow> entry option" where
  "slot s i = buffer s ! nat ((head s - count s + int i) mod max_size s)"

definition window :: "InteractionLog \<Rightarrow> entry option list" where
  "window s = map (slot s) [0..<nat (count s)]"

definition retained :: "InteractionLog \<Rightarrow> entry list" where
  "retained s = map the (window s)"

text \<open>The invariant of the data model: a positive capacity, a slot array of that length,
  both cursors in range, and no empty slot inside the window.\<close>

definition wf_log :: "InteractionLog \<Rightarrow> bool" where
  "wf_log s \<longleftrightarrow>
     1 \<le> max_size s \<and> length (buffer s) = nat (max_size s) \<and>
     0 \<le> head s \<and> head s < max_size s \<and>
     0 \<le> count s \<and> count s \<le> max_size s \<and>
     None \<notin> set (window s)"

text \<open>The slots that are not \<^verbatim>\<open>None\<close>, as the loop of \<^verbatim>\<open>get_recent\<close> collects them.\<close>

fun collect :: "entry option list \<Rightarrow> entry list" where
  "collect [] = []"
| "collect (None # es) = collect es"
| "collect (Some d # es) = d # collect es"

text \<open>The state that \<open>add\<close> returns when it does not raise.\<close>

definition after_add :: "entry \<Rightarrow> InteractionLog \<Rightarrow> InteractionLog" where
  "after_add e s =
     s\<lparr>buffer := (buffer s)[nat (head s) := Some e],
       head := (head s + 1) mod max_size s,
       count := (if count s < max_size s then count s + 1 else count s)\<rparr>"

text \<open>The entries added since the last \<open>clear\<close>, in the order of the calls, and the ones
  among them that a log of capacity \<open>c\<close> retains.\<close>

fun record_call :: "entry list \<Rightarrow> call \<Rightarrow> entry list" where
  "record_call h (Add now kwargs) = h @ [new_entry now kwargs]"
| "record_call h Clear = []"

definition history :: "call list \<Rightarrow> entry list" where
  "history cs = foldl record_call [] cs"

definition kept :: "int \<Rightarrow> call list \<Rightarrow> entry list" where
  "kept c cs = lastn (nat c) (history cs)"

definition add_calls :: "(string \<times> entry) list \<Rightarrow> call list" where
  "add_calls adds = map (\<lambda>(now, kwargs). Add now kwargs) adds"

text \<open>The statistics of a list of entries: the loop body of \<^verbatim>\<open>get_stats\<close> run over
  the entries themselves, oldest first.\<close>

fun tally_all :: "entry option list \<Rightarrow> counts \<Rightarrow> error + counts" where
  "tally_all [] bt = Inr bt"
| "tally_all (e # es) bt =
     (case tally e bt of Inl x \<Rightarrow> Inl x | Inr bt' \<Rightarrow> tally_all es bt')"

definition stats_of :: "entry list \<Rightarrow> error + stats" where
  "stats_of es =
     (case tally_all (map Some es) [] of
        Inl x \<Rightarrow> Inl x
      | Inr bt \<Rightarrow> Inr \<lparr>total_stat = int (length es), by_type = bt\<rparr>)"

text \<open>Properties of one entry: its \<^verbatim>\<open>type\<close> value, if any, is hashable; its \<^verbatim>\<open>type\<close> is
  the value \<open>t\<close> under Python's key equality; it has no \<^verbatim>\<open>type\<close> field; it has a
  \<^verbatim>\<open>timestamp\<close> field.\<close>

definition type_ok :: "entry \<Rightarrow> bool" where
  "type_ok d = (case map_of d ''type'' of None \<Rightarrow> True | Some t \<Rightarrow> hashable t)"

definition has_type :: "pyval \<Rightarrow> entry \<Rightarrow> bool" where
  "has_type t d = (case map_of d ''type'' of None \<Rightarrow> False | Some t' \<Rightarrow> py_eq t' t)"

definition untyped :: "entry \<Rightarrow> bool" where
  "untyped d = (map_of d ''type'' = None)"

definition has_timestamp :: "entry \<Rightarrow> bool" where
  "has_timestamp d = (map_of d ''timestamp'' \<noteq> None)"

text \<open>The keys of a \<^verbatim>\<open>by_type\<close> dictionary up to Python's key equality.\<close>

definition norm_keys :: "counts \<Rightarrow> pyval list" where
  "norm_keys bt = map (\<lambda>p. key_norm (fst p)) bt"

section \<open>Reading the ring\<close>

lemma py_mod_pos: "m \<noteq> 0 \<Longrightarrow> py_mod a m = Inr (a mod m)"
  by (simp add: py_mod_def)

lemma list_getitem_in: "0 \<le> i \<Longrightarrow> i < int (length xs) \<Longrightarrow> list_getitem xs i = Inr (xs ! nat i)"
  by (simp add: list_getitem_def)

lemma list_setitem_in: "0 \<le> i \<Longrightarrow> i < int (length xs) \<Longrightarrow> list_setitem xs i v = Inr (xs[nat i := v])"
  by (simp add: list_setitem_def)

lemma collect_append: "collect (xs @ ys) = collect xs @ collect ys"
  by (induction xs rule: collect.induct) auto

lemma collect_Some: "collect (map Some xs) = xs"
  by (induction xs) auto

lemma get_recent_loop_eq:
  assumes "1 \<le> m" "length buf = nat m"
  shows "get_recent_loop buf m start js result =
           Inr (result @ collect (map (\<lambda>i. buf ! nat ((start + i) mod m)) js))"
  using assms
proof (induction js arbitrary: result)
  case Nil
  then show ?case by simp
next
  case (Cons j js)
  have r: "0 \<le> (start + j) mod m" "(start + j) mod m < int (length buf)"
    using Cons.prems by simp_all
  show ?case
    using Cons.prems
    by (simp add: py_mod_pos list_getitem_in[OF r] Cons.IH split: option.split)
qed

lemma window_nth: "i < nat (count s) \<Longrightarrow> window s ! i = slot s i"
  by (simp add: window_def)

lemma length_window: "length (window s) = nat (count s)"
  by (simp add: window_def)

lemma map_Some_the: "None \<notin> set xs \<Longrightarrow> map Some (map the xs) = xs"
  by (induction xs) auto

lemma inv_window_Some: "wf_log s \<Longrightarrow> window s = map Some (retained s)"
  using map_Some_the[of "window s"] by (simp add: retained_def wf_log_def)

lemma slot_shift:
  assumes "1 \<le> max_size s" "0 \<le> c" "c \<le> count s"
  shows "buffer s ! nat (((head s - c + max_size s) mod max_size s + int i) mod max_size s)
         = slot s (nat (count s) - nat c + i)"
proof -
  have "(head s - c + max_size s) mod max_size s = (head s - c) mod max_size s"
    by simp
  then have "((head s - c + max_size s) mod max_size s + int i) mod max_size s
        = (head s - c + int i) mod max_size s"
    by (simp add: mod_add_left_eq)
  moreover have "head s - count s + int (nat (count s) - nat c + i) = head s - c + int i"
    using assms by (simp add: of_nat_diff nat_le_eq_zle)
  ultimately show ?thesis by (simp only: slot_def)
qed

lemma drop_window:
  "j \<le> nat (count s) \<Longrightarrow> drop j (window s) = map (\<lambda>i. slot s (j + i)) [0..<nat (count s) - j]"
  by (rule nth_equalityI) (simp_all add: window_def)

lemma get_recent_window:
  assumes "wf_log s"
  shows "get_recent n s = Inr (lastn (nat (min n (count s))) (retained s))"
proof -
  let ?c = "min n (count s)"
  have m: "1 \<le> max_size s" and len: "length (buffer s) = nat (max_size s)"
    and cnt: "0 \<le> count s"
    using assms by (simp_all add: wf_log_def)
  have w: "window s = map Some (retained s)" by (rule inv_window_Some[OF assms])
  have lr: "length (retained s) = nat (count s)" by (simp add: retained_def length_window)
  show ?thesis
  proof (cases "0 \<le> ?c")
    case False
    then have "?c \<le> 0" by linarith
    then have "py_range ?c = []" "nat ?c = 0" by (simp_all add: py_range_def)
    then show ?thesis using m by (simp add: get_recent_def Let_def py_mod_pos lastn_def lr)
  next
    case True
    have le: "?c \<le> count s" by simp
    let ?start = "(head s - ?c + max_size s) mod max_size s"
    have "get_recent n s = get_recent_loop (buffer s) (max_size s) ?start (py_range ?c) []"
      using m by (simp add: get_recent_def Let_def py_mod_def)
    also have "\<dots> = Inr (collect (map (\<lambda>i. buffer s ! nat ((?start + i) mod max_size s))
                                    (py_range ?c)))"
      by (simp add: get_recent_loop_eq[OF m len])
    also have "map (\<lambda>i. buffer s ! nat ((?start + i) mod max_size s)) (py_range ?c)
               = map (\<lambda>i. slot s (nat (count s) - nat ?c + i)) [0..<nat ?c]"
      by (simp only: py_range_def map_map comp_def slot_shift[OF m True le])
    also have "map (\<lambda>i. slot s (nat (count s) - nat ?c + i)) [0..<nat ?c]
               = drop (nat (count s) - nat ?c) (window s)"
      using True cnt by (simp add: drop_window)
    also have "collect (drop (nat (count s) - nat ?c) (window s))
               = drop (nat (count s) - nat ?c) (retained s)"
      by (simp add: w drop_map collect_Some)
    finally show ?thesis by (simp add: lastn_def lr)
  qed
qed

lemma ring_neq:
  fixes h d m :: int
  assumes "0 \<le> h" "h < m" "0 < d" "d < m"
  shows "(h - d) mod m \<noteq> h"
proof
  assume "(h - d) mod m = h"
  then have "(h - d) mod m = h mod m" using assms by simp
  then have "m dvd (h - d) - h" by (simp only: mod_eq_dvd_iff)
  then have "m dvd d" by simp
  then have "m \<le> d" using assms by (simp add: zdvd_imp_le)
  then show False using assms by simp
qed

lemma ring_read_other:
  fixes h d m :: int
  assumes "0 \<le> h" "h < m" "0 < d" "d < m"
  shows "buf[nat h := x] ! nat ((h - d) mod m) = buf ! nat ((h - d) mod m)"
proof -
  have "0 \<le> (h - d) mod m" using assms by simp
  then have "nat ((h - d) mod m) \<noteq> nat h"
    using ring_neq[OF assms] assms by (simp add: eq_nat_nat_iff)
  then show ?thesis by simp
qed

lemma ring_read_head:
  fixes h m :: int
  assumes "0 \<le> h" "h < m" "length buf = nat m"
  shows "buf[nat h := x] ! nat (h mod m) = x"
  using assms by simp

lemma add_Inr: "wf_log s \<Longrightarrow> add now kw s = Inr (after_add (new_entry now kw) s)"
  by (simp add: add_def Let_def wf_log_def list_setitem_in py_mod_pos after_add_def)

lemma slot_after_add_grow:
  assumes wf: "wf_log s" and nf: "count s < max_size s" and i: "int i \<le> count s"
  shows "slot (after_add e s) i = (if int i < count s then slot s i else Some e)"
proof -
  let ?m = "max_size s"
  have b: "0 \<le> head s" "head s < ?m" "length (buffer s) = nat ?m" "0 \<le> count s"
    using wf by (simp_all add: wf_log_def)
  have "((head s + 1) mod ?m - (count s + 1) + int i) mod ?m
        = ((head s + 1) - (count s + 1) + int i) mod ?m"
    by (metis mod_add_left_eq mod_diff_left_eq)
  also have "(head s + 1) - (count s + 1) + int i = head s - (count s - int i)" by simp
  finally have idx: "((head s + 1) mod ?m - (count s + 1) + int i) mod ?m
                     = (head s - (count s - int i)) mod ?m" .
  have sl: "slot (after_add e s) i
            = (buffer s)[nat (head s) := Some e] ! nat ((head s - (count s - int i)) mod ?m)"
    using nf by (simp add: slot_def after_add_def idx)
  show ?thesis
  proof (cases "int i < count s")
    case True
    then have d: "0 < count s - int i" "count s - int i < ?m" using nf by simp_all
    have "slot s i = buffer s ! nat ((head s - (count s - int i)) mod ?m)"
      by (simp add: slot_def algebra_simps)
    then show ?thesis
      using True by (simp add: sl ring_read_other[OF b(1) b(2) d])
  next
    case False
    then have "count s - int i = 0" using i by simp
    then show ?thesis
      using False ring_read_head[OF b(1) b(2) b(3)] by (simp add: sl)
  qed
qed

lemma slot_after_add_full:
  assumes wf: "wf_log s" and full: "count s = max_size s" and i: "int i < max_size s"
  shows "slot (after_add e s) i = (if int i + 1 < max_size s then slot s (Suc i) else Some e)"
proof -
  let ?m = "max_size s"
  have b: "0 \<le> head s" "head s < ?m" "length (buffer s) = nat ?m" "0 \<le> count s"
    using wf by (simp_all add: wf_log_def)
  have "((head s + 1) mod ?m - ?m + int i) mod ?m
        = ((head s + 1) - ?m + int i) mod ?m"
    by (metis mod_add_left_eq mod_diff_left_eq)
  also have "(head s + 1) - ?m + int i = head s - (?m - 1 - int i)" by simp
  finally have idx: "((head s + 1) mod ?m - ?m + int i) mod ?m
                     = (head s - (?m - 1 - int i)) mod ?m" .
  have sl: "slot (after_add e s) i
            = (buffer s)[nat (head s) := Some e] ! nat ((head s - (?m - 1 - int i)) mod ?m)"
    using full by (simp add: slot_def after_add_def idx)
  show ?thesis
  proof (cases "int i + 1 < ?m")
    case True
    then have d: "0 < ?m - 1 - int i" "?m - 1 - int i < ?m" by simp_all
    have "head s - count s + int (Suc i) = head s - (?m - 1 - int i)"
      using full by simp
    then have "slot s (Suc i) = buffer s ! nat ((head s - (?m - 1 - int i)) mod ?m)"
      by (simp only: slot_def)
    then show ?thesis
      using True by (simp add: sl ring_read_other[OF b(1) b(2) d])
  next
    case False
    then have "?m - 1 - int i = 0" using i by simp
    then show ?thesis
      using False ring_read_head[OF b(1) b(2) b(3)] by (simp add: sl)
  qed
qed

lemma window_after_add_grow:
  assumes wf: "wf_log s" and nf: "count s < max_size s"
  shows "window (after_add e s) = window s @ [Some e]"
proof (rule nth_equalityI)
  have c: "0 \<le> count s" using wf by (simp add: wf_log_def)
  show "length (window (after_add e s)) = length (window s @ [Some e])"
    using nf c by (simp add: length_window after_add_def nat_add_distrib)
  fix i assume "i < length (window (after_add e s))"
  then have i: "int i \<le> count s" using nf c by (simp add: length_window after_add_def)
  then have "i < nat (count (after_add e s))" using nf c by (simp add: after_add_def)
  then have "window (after_add e s) ! i = slot (after_add e s) i" by (rule window_nth)
  also have "\<dots> = (if int i < count s then slot s i else Some e)"
    by (rule slot_after_add_grow[OF wf nf i])
  also have "\<dots> = (window s @ [Some e]) ! i"
    using i c by (auto simp: nth_append length_window window_nth)
  finally show "window (after_add e s) ! i = (window s @ [Some e]) ! i" .
qed

lemma window_after_add_full:
  assumes wf: "wf_log s" and full: "count s = max_size s"
  shows "window (after_add e s) = tl (window s) @ [Some e]"
proof (rule nth_equalityI)
  have m: "1 \<le> max_size s" using wf by (simp add: wf_log_def)
  show "length (window (after_add e s)) = length (tl (window s) @ [Some e])"
    using full m by (simp add: length_window after_add_def)
  fix i assume "i < length (window (after_add e s))"
  then have i: "int i < max_size s" using full by (simp add: length_window after_add_def)
  then have "i < nat (count (after_add e s))" using full by (simp add: after_add_def)
  then have "window (after_add e s) ! i = slot (after_add e s) i" by (rule window_nth)
  also have "\<dots> = (if int i + 1 < max_size s then slot s (Suc i) else Some e)"
    by (rule slot_after_add_full[OF wf full i])
  also have "\<dots> = (tl (window s) @ [Some e]) ! i"
    using i full m by (auto simp: nth_append length_window window_nth nth_tl)
  finally show "window (after_add e s) ! i = (tl (window s) @ [Some e]) ! i" .
qed

lemma length_lastn: "length (lastn k xs) = min k (length xs)"
  by (simp add: lastn_def)

lemma lastn_all: "length xs \<le> k \<Longrightarrow> lastn k xs = xs"
  by (simp add: lastn_def)

lemma lastn_snoc_full: "length xs = k \<Longrightarrow> 0 < k \<Longrightarrow> lastn k (xs @ [x]) = tl xs @ [x]"
  by (cases xs) (simp_all add: lastn_def)

lemma lastn_lastn_snoc: "lastn k (lastn k xs @ [x]) = lastn k (xs @ [x])"
  by (cases "k \<le> length xs") (auto simp: lastn_def Suc_diff_le)

lemma map_lastn: "map f (lastn k xs) = lastn k (map f xs)"
  by (simp add: lastn_def drop_map)

lemma window_after_add:
  assumes wf: "wf_log s"
  shows "window (after_add e s) = lastn (nat (max_size s)) (window s @ [Some e])"
proof (cases "count s < max_size s")
  case True
  have "0 \<le> count s" using wf by (simp add: wf_log_def)
  then have "length (window s @ [Some e]) \<le> nat (max_size s)"
    using True by (simp add: length_window)
  then show ?thesis
    by (simp only: window_after_add_grow[OF wf True] lastn_all)
next
  case False
  then have full: "count s = max_size s" using wf by (simp add: wf_log_def)
  have "length (window s) = nat (max_size s)" "0 < nat (max_size s)"
    using wf full by (simp_all add: length_window wf_log_def)
  then show ?thesis
    by (simp only: window_after_add_full[OF wf full] lastn_snoc_full)
qed

lemma set_lastn: "set (lastn k xs) \<subseteq> set xs"
  by (simp add: lastn_def set_drop_subset)

lemma wf_after_add:
  assumes wf: "wf_log s"
  shows "wf_log (after_add e s)"
proof -
  have "set (window (after_add e s)) \<subseteq> set (window s @ [Some e])"
    by (simp only: window_after_add[OF wf] set_lastn)
  moreover have "None \<notin> set (window s @ [Some e])" using wf by (simp add: wf_log_def)
  ultimately have "None \<notin> set (window (after_add e s))" by blast
  moreover have "1 \<le> max_size s" "length (buffer s) = nat (max_size s)"
    "0 \<le> count s" "count s \<le> max_size s"
    using wf by (simp_all add: wf_log_def)
  ultimately show ?thesis
    by (simp add: wf_log_def after_add_def)
qed

lemma retained_after_add:
  assumes wf: "wf_log s"
  shows "retained (after_add e s) = lastn (nat (max_size s)) (retained s @ [e])"
proof -
  have "retained (after_add e s) = map the (lastn (nat (max_size s)) (window s @ [Some e]))"
    by (simp only: retained_def window_after_add[OF wf])
  also have "\<dots> = lastn (nat (max_size s)) (map the (window s @ [Some e]))"
    by (rule map_lastn)
  finally show ?thesis by (simp add: retained_def)
qed

lemma max_size_after_add: "max_size (after_add e s) = max_size s"
  by (simp add: after_add_def)

lemma wf_clear: "wf_log s \<Longrightarrow> wf_log (clear s)"
  by (simp add: wf_log_def clear_def window_def)

lemma max_size_clear: "max_size (clear s) = max_size s"
  by (simp add: clear_def)

lemma retained_clear: "retained (clear s) = []"
  by (simp add: retained_def window_def clear_def)

lemma wf_init:
  "1 \<le> m \<Longrightarrow> \<exists>s. init m = Inr s \<and> wf_log s \<and> max_size s = m \<and> retained s = []"
  by (simp add: init_def wf_log_def window_def retained_def)

lemma lastn_record:
  "lastn k (foldl record_call (lastn k h) cs) = lastn k (foldl record_call h cs)"
proof (induction cs arbitrary: h)
  case Nil
  show ?case by (simp add: lastn_def)
next
  case (Cons c cs)
  show ?case
  proof (cases c)
    case (Add now kw)
    have "lastn k (foldl record_call (lastn k h @ [new_entry now kw]) cs)
          = lastn k (foldl record_call (lastn k (lastn k h @ [new_entry now kw])) cs)"
      by (simp only: Cons.IH)
    also have "\<dots> = lastn k (foldl record_call (lastn k (h @ [new_entry now kw])) cs)"
      by (simp only: lastn_lastn_snoc)
    also have "\<dots> = lastn k (foldl record_call (h @ [new_entry now kw]) cs)"
      by (simp only: Cons.IH)
    finally show ?thesis using Add by simp
  next
    case Clear
    then show ?thesis by simp
  qed
qed

lemma run_wf:
  assumes "wf_log s"
  shows "\<exists>s'. run s cs = Inr s' \<and> wf_log s' \<and> max_size s' = max_size s \<and>
              retained s' = lastn (nat (max_size s)) (foldl record_call (retained s) cs)"
  using assms
proof (induction cs arbitrary: s)
  case Nil
  then have "length (retained s) \<le> nat (max_size s)"
    by (auto simp: retained_def length_window wf_log_def intro: nat_mono)
  then show ?case using Nil by (simp add: lastn_all)
next
  case (Cons c cs)
  show ?case
  proof (cases c)
    case (Add now kw)
    let ?e = "new_entry now kw"
    let ?t = "after_add ?e s"
    have st: "step s c = Inr ?t" using Add add_Inr[OF Cons.prems] by simp
    have wt: "wf_log ?t" by (rule wf_after_add[OF Cons.prems])
    obtain s' where s': "run ?t cs = Inr s'" "wf_log s'" "max_size s' = max_size ?t"
      "retained s' = lastn (nat (max_size ?t)) (foldl record_call (retained ?t) cs)"
      using Cons.IH[OF wt] by blast
    have "retained s' = lastn (nat (max_size s)) (foldl record_call (retained s @ [?e]) cs)"
      by (simp only: s'(4) max_size_after_add retained_after_add[OF Cons.prems] lastn_record)
    then show ?thesis
      using s' st Add by (simp add: max_size_after_add)
  next
    case Clear
    have wt: "wf_log (clear s)" by (rule wf_clear[OF Cons.prems])
    obtain s' where s': "run (clear s) cs = Inr s'" "wf_log s'" "max_size s' = max_size (clear s)"
      "retained s' = lastn (nat (max_size (clear s))) (foldl record_call (retained (clear s)) cs)"
      using Cons.IH[OF wt] by blast
    then show ?thesis
      using Clear by (simp add: retained_clear max_size_clear)
  qed
qed

lemma session_wf:
  assumes "1 \<le> m"
  shows "\<exists>s. session m cs = Inr s \<and> wf_log s \<and> max_size s = m \<and>
             retained s = lastn (nat m) (history cs)"
proof -
  obtain s0 where s0: "init m = Inr s0" "wf_log s0" "max_size s0 = m" "retained s0 = []"
    using wf_init[OF assms] by blast
  from run_wf[OF s0(2), of cs] s0 show ?thesis
    by (simp add: session_def history_def)
qed

lemma lastn_lastn:
  assumes "k \<le> c"
  shows "lastn k (lastn c xs) = lastn k xs"
proof -
  have "length xs - (length xs - c + k) + (length xs - c) = length xs - k"
    using assms by arith
  then show ?thesis by (simp add: lastn_def)
qed

lemma count_retained: "wf_log s \<Longrightarrow> count s = int (length (retained s))"
  by (simp add: retained_def length_window wf_log_def)

lemma get_recent_none:
  assumes "max_size s \<noteq> 0" "min n (count s) \<le> 0"
  shows "get_recent n s = Inr []"
  using assms by (simp add: get_recent_def Let_def py_mod_def py_range_def)

section \<open>Counting by type\<close>

lemma get_stats_loop_eq:
  assumes "1 \<le> max_size s" "length (buffer s) = nat (max_size s)"
  shows "get_stats_loop s js bt =
           tally_all (map (\<lambda>i. buffer s ! nat ((head s - count s + i) mod max_size s)) js) bt"
  using assms
proof (induction js arbitrary: bt)
  case Nil
  then show ?case by simp
next
  case (Cons j js)
  let ?idx = "(head s - count s + j) mod max_size s"
  have r: "0 \<le> ?idx" "?idx < int (length (buffer s))"
    using Cons.prems by simp_all
  have "py_mod (head s - count s + j + max_size s) (max_size s) = Inr ?idx"
    using Cons.prems by (simp add: py_mod_def)
  then show ?case
    using Cons.prems
    by (simp add: list_getitem_in[OF r] Cons.IH split: sum.split)
qed

lemma get_stats_window:
  assumes "wf_log s"
  shows "get_stats s = stats_of (retained s)"
proof -
  have m: "1 \<le> max_size s" and len: "length (buffer s) = nat (max_size s)"
    using assms by (simp_all add: wf_log_def)
  have "map (\<lambda>i. buffer s ! nat ((head s - count s + i) mod max_size s)) (py_range (count s))
        = window s"
    by (simp add: py_range_def window_def slot_def comp_def)
  then have "get_stats_loop s (py_range (count s)) [] = tally_all (map Some (retained s)) []"
    by (simp only: get_stats_loop_eq[OF m len] inv_window_Some[OF assms])
  then show ?thesis
    unfolding get_stats_def stats_of_def
    using count_retained[OF assms] by (simp split: sum.split)
qed

lemma tally_Some:
  "tally (Some d) bt =
     (case map_of d ''type'' of
        None \<Rightarrow> Inr bt
      | Some t \<Rightarrow> if hashable t
                  then Inr (counts_setitem bt t (counts_get bt t 0 + 1))
                  else Inl TypeError)"
  by (cases d) (simp_all add: tally_def)

lemma sum_counts_setitem:
  "sum_list (map snd (counts_setitem bt t (counts_get bt t 0 + 1))) = sum_list (map snd bt) + 1"
  by (induction bt) auto

lemma counts_get_setitem:
  "counts_get (counts_setitem bt t c) t' dflt =
     (if py_eq t t' then c else counts_get bt t' dflt)"
  by (induction bt) (auto simp: py_eq_def)

lemma counts_get_cong:
  "key_norm u = key_norm t \<Longrightarrow> counts_get bt u dflt = counts_get bt t dflt"
  by (induction bt) (auto simp: py_eq_def)

lemma norm_keys_Cons: "norm_keys ((k, c) # bt) = key_norm k # norm_keys bt"
  by (simp add: norm_keys_def)

lemma keys_counts_setitem:
  "set (norm_keys (counts_setitem bt t c)) = insert (key_norm t) (set (norm_keys bt))"
proof (induction bt)
  case Nil
  show ?case by (simp add: norm_keys_def)
next
  case (Cons p bt)
  obtain k c' where p: "p = (k, c')" by (cases p)
  show ?case
  proof (cases "py_eq k t")
    case True
    then have "key_norm k = key_norm t" by (simp add: py_eq_def)
    then show ?thesis using True p by (auto simp: norm_keys_Cons)
  next
    case False
    then show ?thesis using p Cons.IH by (auto simp: norm_keys_Cons)
  qed
qed

lemma distinct_counts_setitem:
  "distinct (norm_keys bt) \<Longrightarrow> distinct (norm_keys (counts_setitem bt t c))"
proof (induction bt)
  case Nil
  then show ?case by (simp add: norm_keys_def)
next
  case (Cons p bt)
  obtain k c' where p: "p = (k, c')" by (cases p)
  show ?case
  proof (cases "py_eq k t")
    case True
    then show ?thesis using Cons.prems p by (simp add: norm_keys_Cons)
  next
    case False
    then have "key_norm k \<noteq> key_norm t" by (simp add: py_eq_def)
    then have "key_norm k \<notin> set (norm_keys (counts_setitem bt t c))"
      using Cons.prems p by (simp add: keys_counts_setitem norm_keys_Cons)
    then show ?thesis using False Cons p by (simp add: norm_keys_Cons)
  qed
qed

lemma tally_all_total:
  "list_all type_ok es \<Longrightarrow> \<exists>bt'. tally_all (map Some es) bt = Inr bt'"
  by (induction es arbitrary: bt) (auto simp: tally_Some type_ok_def split: option.splits)

lemma tally_all_Cons:
  "tally_all (map Some (d # es)) bt = Inr bt' \<Longrightarrow>
   (map_of d ''type'' = None \<and> tally_all (map Some es) bt = Inr bt') \<or>
   (\<exists>t. map_of d ''type'' = Some t \<and> hashable t \<and>
        tally_all (map Some es) (counts_setitem bt t (counts_get bt t 0 + 1)) = Inr bt')"
  by (auto simp: tally_Some split: option.splits if_splits)

lemma tally_all_sum:
  "tally_all (map Some es) bt = Inr bt' \<Longrightarrow>
   sum_list (map snd bt') + int (length (filter untyped es)) = sum_list (map snd bt) + int (length es)"
proof (induction es arbitrary: bt)
  case Nil
  then show ?case by simp
next
  case (Cons d es)
  from tally_all_Cons[OF Cons.prems] show ?case
  proof (elim disjE conjE exE)
    assume "map_of d ''type'' = None" "tally_all (map Some es) bt = Inr bt'"
    then show ?thesis using Cons.IH[of bt] by (simp add: untyped_def)
  next
    fix t
    assume "map_of d ''type'' = Some t"
      "tally_all (map Some es) (counts_setitem bt t (counts_get bt t 0 + 1)) = Inr bt'"
    then show ?thesis
      using Cons.IH[of "counts_setitem bt t (counts_get bt t 0 + 1)"]
      by (simp add: untyped_def sum_counts_setitem)
  qed
qed

lemma tally_all_bucket:
  "tally_all (map Some es) bt = Inr bt' \<Longrightarrow>
   counts_get bt' t 0 = counts_get bt t 0 + int (length (filter (has_type t) es))"
proof (induction es arbitrary: bt)
  case Nil
  then show ?case by simp
next
  case (Cons d es)
  from tally_all_Cons[OF Cons.prems] show ?case
  proof (elim disjE conjE exE)
    assume n: "map_of d ''type'' = None" and rest: "tally_all (map Some es) bt = Inr bt'"
    have "\<not> has_type t d" using n by (simp add: has_type_def)
    then show ?thesis using Cons.IH[OF rest] by simp
  next
    fix u
    assume u: "map_of d ''type'' = Some u"
      and rest: "tally_all (map Some es) (counts_setitem bt u (counts_get bt u 0 + 1)) = Inr bt'"
    have ih: "counts_get bt' t 0 =
                counts_get (counts_setitem bt u (counts_get bt u 0 + 1)) t 0
                + int (length (filter (has_type t) es))"
      using rest by (rule Cons.IH)
    show ?thesis
    proof (cases "py_eq u t")
      case True
      then have "key_norm u = key_norm t" by (simp add: py_eq_def)
      then have g: "counts_get bt u 0 = counts_get bt t 0" by (rule counts_get_cong)
      have "has_type t d" using True u by (simp add: has_type_def)
      then show ?thesis using True g ih by (simp add: counts_get_setitem)
    next
      case False
      then have "\<not> has_type t d" using u by (simp add: has_type_def)
      then show ?thesis using False ih by (simp add: counts_get_setitem)
    qed
  qed
qed

lemma tally_all_distinct:
  "tally_all (map Some es) bt = Inr bt' \<Longrightarrow> distinct (norm_keys bt) \<Longrightarrow>
   distinct (norm_keys bt')"
proof (induction es arbitrary: bt)
  case Nil
  then show ?case by simp
next
  case (Cons d es)
  from tally_all_Cons[OF Cons.prems(1)] show ?case
  proof (elim disjE conjE exE)
    assume "tally_all (map Some es) bt = Inr bt'"
    then show ?thesis using Cons.prems(2) by (rule Cons.IH)
  next
    fix u
    assume "tally_all (map Some es) (counts_setitem bt u (counts_get bt u 0 + 1)) = Inr bt'"
    then show ?thesis
      using distinct_counts_setitem[OF Cons.prems(2)] by (rule Cons.IH)
  qed
qed

lemma history_add_calls:
  "foldl record_call h (add_calls adds) = h @ map (\<lambda>(now, kwargs). new_entry now kwargs) adds"
  by (induction adds arbitrary: h) (auto simp: add_calls_def)

section \<open>Reachable states and their statistics\<close>

lemma session_stats:
  assumes "1 \<le> c"
  shows "\<exists>s. session c cs = Inr s \<and> wf_log s \<and> max_size s = c \<and>
             retained s = kept c cs \<and> get_stats s = stats_of (kept c cs)"
proof -
  obtain s where s: "session c cs = Inr s" "wf_log s" "max_size s = c"
    "retained s = lastn (nat c) (history cs)"
    using session_wf[OF assms] by blast
  have "get_stats s = stats_of (kept c cs)"
    by (simp only: get_stats_window[OF s(2)] s(4) kept_def)
  then show ?thesis using s by (auto simp: kept_def)
qed

lemma stats_of_ok:
  assumes "list_all type_ok es"
  shows "\<exists>r. stats_of es = Inr r \<and> total_stat r = int (length es) \<and>
             sum_list (map snd (by_type r)) + int (length (filter untyped es)) = total_stat r \<and>
             (\<forall>t. counts_get (by_type r) t 0 = int (length (filter (has_type t) es))) \<and>
             distinct (norm_keys (by_type r))"
proof -
  obtain bt where bt: "tally_all (map Some es) [] = Inr bt"
    using tally_all_total[OF assms] by blast
  have "sum_list (map snd bt) + int (length (filter untyped es)) = int (length es)"
    using tally_all_sum[OF bt] by simp
  moreover have "\<forall>t. counts_get bt t 0 = int (length (filter (has_type t) es))"
    using tally_all_bucket[OF bt] by simp
  moreover have "distinct (norm_keys bt)"
    using tally_all_distinct[OF bt] by (simp add: norm_keys_def)
  ultimately show ?thesis by (simp add: stats_of_def bt)
qed

lemma history_adds: "history (add_calls adds) = map (\<lambda>(now, kwargs). new_entry now kwargs) adds"
  by (simp add: history_def history_add_calls)

section \<open>The oldest entry of a full log\<close>

lemma oldest_at_head:
  assumes wf: "wf_log s" and full: "count s = max_size s"
  shows "buffer s ! nat (head s) = Some (hd (retained s))"
proof -
  have b: "1 \<le> max_size s" "0 \<le> head s" "head s < max_size s"
    using wf by (simp_all add: wf_log_def)
  have l: "length (retained s) = nat (max_size s)"
    using full by (simp add: retained_def length_window)
  then have ne: "retained s \<noteq> []" using b by auto
  have "window s ! 0 = slot s 0"
    using b full by (simp add: window_nth)
  also have "\<dots> = buffer s ! nat (head s)"
    using b full by (simp add: slot_def)
  finally have "buffer s ! nat (head s) = map Some (retained s) ! 0"
    by (simp add: inv_window_Some[OF wf])
  also have "\<dots> = Some (hd (retained s))"
    using ne by (simp add: hd_conv_nth)
  finally show ?thesis .
qed

lemma kept_full:
  assumes "1 \<le> c" "c \<le> int (length (history cs))"
  shows "length (kept c cs) = nat c"
  using assms by (simp add: kept_def length_lastn)

section \<open>Fields of a stored entry\<close>

lemma map_of_dict_setitem: "map_of (dict_setitem d k v) = (map_of d)(k \<mapsto> v)"
  by (induction d) (auto simp: fun_eq_iff)

lemma map_of_fold_setitem:
  "map_of (fold (\<lambda>(k, v) d. dict_setitem d k v) kw d) k' =
     (case map_of (rev kw) k' of Some v \<Rightarrow> Some v | None \<Rightarrow> map_of d k')"
proof (induction kw arbitrary: d)
  case Nil
  show ?case by simp
next
  case (Cons p kw)
  obtain k v where p: "p = (k, v)" by (cases p)
  show ?case
    by (simp add: p Cons.IH map_of_dict_setitem map_of_append map_add_def split: option.split)
qed

lemma map_of_new_entry:
  "map_of (new_entry now kw) k =
     (case map_of (rev kw) k of
        Some v \<Rightarrow> Some v
      | None \<Rightarrow> if k = ''timestamp'' then Some (VStr now) else None)"
  by (auto simp: new_entry_def map_of_fold_setitem split: option.split)

lemma has_timestamp_new_entry: "has_timestamp (new_entry now kw)"
  by (simp add: has_timestamp_def map_of_new_entry split: option.split)

lemma has_timestamp_record:
  "list_all has_timestamp h \<Longrightarrow> list_all has_timestamp (foldl record_call h cs)"
proof (induction cs arbitrary: h)
  case Nil
  then show ?case by simp
next
  case (Cons c cs)
  then show ?case by (cases c) (simp_all add: has_timestamp_new_entry)
qed

lemma has_timestamp_lastn: "list_all has_timestamp xs \<Longrightarrow> list_all has_timestamp (lastn k xs)"
  using set_lastn[of k xs] by (auto simp: list_all_iff)

lemma has_timestamp_kept: "list_all has_timestamp (kept c cs)"
  by (simp add: kept_def history_def has_timestamp_record has_timestamp_lastn)

section \<open>Evaluated examples\<close>

text \<open>Concrete runs, evaluated with the code equations, for the examples below.\<close>

lemma example_session_mcp_a2a:
  "session 10 [Add ''t1'' [(''type'', VStr ''mcp'')], Add ''t2'' [(''type'', VStr ''mcp'')],
               Add ''t3'' [(''type'', VStr ''mcp'')], Add ''t4'' [(''type'', VStr ''a2a'')],
               Add ''t5'' [(''type'', VStr ''a2a'')]]
   = Inr \<lparr>buffer =
        [Some [(''timestamp'', VStr ''t1''), (''type'', VStr ''mcp'')],
         Some [(''timestamp'', VStr ''t2''), (''type'', VStr ''mcp'')],
         Some [(''timestamp'', VStr ''t3''), (''type'', VStr ''mcp'')],
         Some [(''timestamp'', VStr ''t4''), (''type'', VStr ''a2a'')],
         Some [(''timestamp'', VStr ''t5''), (''type'', VStr ''a2a'')],
         None, None, None, None, None],
        max_size = 10, head = 5, count = 5\<rparr>"
  by code_simp

lemma example_stats_mcp_a2a:
  "get_stats \<lparr>buffer =
        [Some [(''timestamp'', VStr ''t1''), (''type'', VStr ''mcp'')],
         Some [(''timestamp'', VStr ''t2''), (''type'', VStr ''mcp'')],
         Some [(''timestamp'', VStr ''t3''), (''type'', VStr ''mcp'')],
         Some [(''timestamp'', VStr ''t4''), (''type'', VStr ''a2a'')],
         Some [(''timestamp'', VStr ''t5''), (''type'', VStr ''a2a'')],
         None, None, None, None, None],
        max_size = 10, head = 5, count = 5\<rparr>
   = Inr \<lparr>total_stat = 5, by_type = [(VStr ''mcp'', 3), (VStr ''a2a'', 2)]\<rparr>"
  by code_simp

lemma example_kept_mcp_a2a:
  "kept 10 [Add ''t1'' [(''type'', VStr ''mcp'')], Add ''t2'' [(''type'', VStr ''mcp'')],
               Add ''t3'' [(''type'', VStr ''mcp'')], Add ''t4'' [(''type'', VStr ''a2a'')],
               Add ''t5'' [(''type'', VStr ''a2a'')]]
   = [[(''timestamp'', VStr ''t1''), (''type'', VStr ''mcp'')],
      [(''timestamp'', VStr ''t2''), (''type'', VStr ''mcp'')],
      [(''timestamp'', VStr ''t3''), (''type'', VStr ''mcp'')],
      [(''timestamp'', VStr ''t4''), (''type'', VStr ''a2a'')],
      [(''timestamp'', VStr ''t5''), (''type'', VStr ''a2a'')]]"
  by code_simp

lemma example_session_abc:
  "session 3 [Add ''t1'' [(''tool'', VStr ''A'')], Add ''t2'' [(''tool'', VStr ''B'')],
              Add ''t3'' [(''tool'', VStr ''C'')]]
   = Inr \<lparr>buffer = [Some [(''timestamp'', VStr ''t1''), (''tool'', VStr ''A'')],
                    Some [(''timestamp'', VStr ''t2''), (''tool'', VStr ''B'')],
                    Some [(''timestamp'', VStr ''t3''), (''tool'', VStr ''C'')]],
           max_size = 3, head = 0, count = 3\<rparr>"
  by code_simp

lemma example_kept_abc:
  "kept 3 [Add ''t1'' [(''tool'', VStr ''A'')], Add ''t2'' [(''tool'', VStr ''B'')],
              Add ''t3'' [(''tool'', VStr ''C'')]]
   = [[(''timestamp'', VStr ''t1''), (''tool'', VStr ''A'')],
      [(''timestamp'', VStr ''t2''), (''tool'', VStr ''B'')],
      [(''timestamp'', VStr ''t3''), (''tool'', VStr ''C'')]]"
  by code_simp

lemma example_history_abc:
  "length (history [Add ''t1'' [(''tool'', VStr ''A'')], Add ''t2'' [(''tool'', VStr ''B'')],
              Add ''t3'' [(''tool'', VStr ''C'')]]) = 3"
  by code_simp

lemma example_entry_d: "new_entry ''t4'' [(''tool'', VStr ''D'')] = [(''timestamp'', VStr ''t4''), (''tool'', VStr ''D'')]"
  by code_simp

lemma lastn_3_of_3: "lastn 3 [a, b, c] = [a, b, c]"
  by (simp add: lastn_def)

section \<open>Recency queries\<close>

text \<open>
  Claim C1. For a log of capacity \<open>c \<ge> 1\<close> and any sequence of calls, \<open>get_recent n\<close>
  (for a request \<open>n \<ge> 0\<close>) returns the last \<open>min n count\<close> entries added since the last
  \<open>clear\<close>, in insertion order, oldest first; \<open>count\<close> is the number of entries added
  since then, capped at the capacity; the length of the result is \<open>min n count\<close>, so
  \<open>n\<close> may exceed both, and \<open>n = 0\<close> gives the empty list.
\<close>

theorem get_recent_last_entries:
  assumes "1 \<le> c" "0 \<le> n"
  shows "\<exists>s r. session c cs = Inr s \<and> get_recent n s = Inr r \<and>
           count s = min (int (length (history cs))) c \<and>
           r = lastn (nat (min n (count s))) (history cs) \<and>
           int (length r) = min n (count s)"
proof -
  obtain s where s: "session c cs = Inr s" "wf_log s" "max_size s = c"
    "retained s = lastn (nat c) (history cs)"
    using session_wf[OF assms(1)] by blast
  have cnt: "count s = min (int (length (history cs))) c"
    using assms(1) by (simp add: count_retained[OF s(2)] s(4) length_lastn)
  let ?k = "nat (min n (count s))"
  have k: "?k \<le> nat c" using cnt by simp
  have r: "get_recent n s = Inr (lastn ?k (history cs))"
    by (simp only: get_recent_window[OF s(2)] s(4) lastn_lastn[OF k])
  have "int (length (lastn ?k (history cs))) = min n (count s)"
    using assms cnt by (simp add: length_lastn)
  then show ?thesis using s(1) r cnt by blast
qed

theorem get_recent_last_entries_witness:
  "(1::int) \<le> 2 \<and> (0::int) \<le> 5 \<and>
   (\<exists>s. session 2 [Add ''t1'' [(''type'', VStr ''mcp'')], Add ''t2'' [], Clear,
                    Add ''t3'' [(''tool'', VStr ''getPrice'')], Add ''t4'' [], Add ''t5'' []] = Inr s \<and>
        get_recent 5 s = Inr [[(''timestamp'', VStr ''t4'')], [(''timestamp'', VStr ''t5'')]] \<and>
        count s = 2)"
  using get_recent_last_entries[of 2 5 "[Add ''t1'' [(''type'', VStr ''mcp'')], Add ''t2'' [], Clear,
                    Add ''t3'' [(''tool'', VStr ''getPrice'')], Add ''t4'' [], Add ''t5'' []]"]
  by (auto simp: history_def lastn_def new_entry_def)

text \<open>A log constructed with capacity 0: the start slot is computed modulo 0 before
  the loop, so a negative request raises \<^verbatim>\<open>ZeroDivisionError\<close>.\<close>

theorem get_recent_negative_counterexample:
  "init 0 = Inr \<lparr>buffer = [], max_size = 0, head = 0, count = 0\<rparr> \<and>
   get_recent (-1) \<lparr>buffer = [], max_size = 0, head = 0, count = 0\<rparr> = Inl ZeroDivisionError"
  by (simp add: init_def get_recent_def py_mod_def)

text \<open>
  Claim C10 (amended). In every log state whose capacity is not zero, a negative request
  returns the empty list: \<open>min n count\<close> is negative, so \<^verbatim>\<open>range\<close> is empty and the
  loop body never runs. Nothing else is assumed of the state.
\<close>

theorem get_recent_negative:
  assumes "max_size s \<noteq> 0" "n < 0"
  shows "get_recent n s = Inr []"
  using assms by (simp add: get_recent_none)

theorem get_recent_negative_witness:
  "max_size \<lparr>buffer = [Some [(''timestamp'', VStr ''t1'')], None], max_size = 2, head = 1, count = 1\<rparr> \<noteq> 0
   \<and> (-3::int) < 0
   \<and> get_recent (-3) \<lparr>buffer = [Some [(''timestamp'', VStr ''t1'')], None], max_size = 2, head = 1, count = 1\<rparr> = Inr []"
  using get_recent_negative[of "\<lparr>buffer = [Some [(''timestamp'', VStr ''t1'')], None], max_size = 2, head = 1, count = 1\<rparr>" "-3"]
  by simp

section \<open>Overwriting when full\<close>

text \<open>
  Claim C2. In a log of capacity \<open>c \<ge> 1\<close> that has received at least \<open>c\<close> entries since
  the last \<open>clear\<close>, \<open>count\<close> equals the capacity and the slot at \<open>head\<close> holds the oldest
  retained entry. A further \<open>add\<close> writes the new entry into that slot and nowhere else,
  and \<open>count\<close> stays at the capacity. Afterwards the retained entries are the former
  ones without the oldest, followed by the new one: \<open>get_recent n\<close> returns the last
  \<open>min n c\<close> of them for every \<open>n\<close>, and \<open>get_stats\<close> is the statistics of exactly these
  entries. The witness is the example of the specification: capacity 3, entries A, B, C,
  then D.
\<close>

theorem add_overwrites_oldest:
  assumes "1 \<le> c" "c \<le> int (length (history cs))"
  shows "\<exists>s s'. session c cs = Inr s \<and> count s = c \<and> add now kw s = Inr s' \<and>
           count s' = c \<and> max_size s' = c \<and>
           buffer s ! nat (head s) = Some (hd (kept c cs)) \<and>
           buffer s' = (buffer s)[nat (head s) := Some (new_entry now kw)] \<and>
           (\<forall>n. get_recent n s' =
                  Inr (lastn (nat (min n c)) (tl (kept c cs) @ [new_entry now kw]))) \<and>
           get_stats s' = stats_of (tl (kept c cs) @ [new_entry now kw])"
proof -
  let ?e = "new_entry now kw"
  obtain s where s: "session c cs = Inr s" "wf_log s" "max_size s = c" "retained s = kept c cs"
    using session_stats[OF assms(1)] by blast
  let ?t = "after_add ?e s"
  have len: "length (kept c cs) = nat c" by (rule kept_full[OF assms])
  have cnt: "count s = c"
    using assms(1) by (simp add: count_retained[OF s(2)] s(4) len)
  have full: "count s = max_size s" by (simp add: cnt s(3))
  have st: "add now kw s = Inr ?t" by (rule add_Inr[OF s(2)])
  have wt: "wf_log ?t" by (rule wf_after_add[OF s(2)])
  have rt: "retained ?t = tl (kept c cs) @ [?e]"
    using assms(1) len
    by (simp add: retained_after_add[OF s(2)] s(3) s(4) lastn_snoc_full)
  have ct: "count ?t = c" using cnt s(3) by (simp add: after_add_def)
  have "\<forall>n. get_recent n ?t = Inr (lastn (nat (min n c)) (tl (kept c cs) @ [?e]))"
    by (simp add: get_recent_window[OF wt] rt ct)
  moreover have "get_stats ?t = stats_of (tl (kept c cs) @ [?e])"
    by (simp only: get_stats_window[OF wt] rt)
  moreover have "buffer s ! nat (head s) = Some (hd (kept c cs))"
    using oldest_at_head[OF s(2) full] by (simp add: s(4))
  moreover have "buffer ?t = (buffer s)[nat (head s) := Some ?e]" "max_size ?t = c"
    using s(3) by (simp_all add: after_add_def)
  ultimately show ?thesis using s(1) cnt st ct by blast
qed

theorem add_overwrites_oldest_witness:
  "(1::int) \<le> 3 \<and>
   (3::int) \<le> int (length (history [Add ''t1'' [(''tool'', VStr ''A'')], Add ''t2'' [(''tool'', VStr ''B'')],
              Add ''t3'' [(''tool'', VStr ''C'')]])) \<and>
   (\<exists>s s'. session 3 [Add ''t1'' [(''tool'', VStr ''A'')], Add ''t2'' [(''tool'', VStr ''B'')],
              Add ''t3'' [(''tool'', VStr ''C'')]] = Inr s \<and>
      add ''t4'' [(''tool'', VStr ''D'')] s = Inr s' \<and> count s' = 3 \<and>
      buffer s ! nat (head s) = Some [(''timestamp'', VStr ''t1''), (''tool'', VStr ''A'')] \<and>
      get_recent 3 s' = Inr [[(''timestamp'', VStr ''t2''), (''tool'', VStr ''B'')],
                             [(''timestamp'', VStr ''t3''), (''tool'', VStr ''C'')],
                             [(''timestamp'', VStr ''t4''), (''tool'', VStr ''D'')]] \<and>
      get_recent 10 s' = Inr [[(''timestamp'', VStr ''t2''), (''tool'', VStr ''B'')],
                             [(''timestamp'', VStr ''t3''), (''tool'', VStr ''C'')],
                             [(''timestamp'', VStr ''t4''), (''tool'', VStr ''D'')]])"
  using add_overwrites_oldest[of 3 "[Add ''t1'' [(''tool'', VStr ''A'')], Add ''t2'' [(''tool'', VStr ''B'')],
              Add ''t3'' [(''tool'', VStr ''C'')]]" "''t4''" "[(''tool'', VStr ''D'')]"]
  by (auto simp: example_history_abc example_kept_abc example_entry_d lastn_3_of_3)

section \<open>Construction with a non-positive capacity\<close>

text \<open>
  Construction does not raise for capacities 0 and -5.
\<close>

theorem init_nonpositive_counterexample:
  "\<not> isl (init 0) \<and> \<not> isl (init (-5)) \<and>
   init (-5) = Inr \<lparr>buffer = [], max_size = -5, head = 0, count = 0\<rparr>"
  by (simp add: init_def)

text \<open>
  Claim C3 (amended). Construction with \<open>max_size \<le> 0\<close> raises nothing: it returns a log
  with an empty slot array and the value stored as given. The failure shows later:
  every \<open>add\<close> raises \<^verbatim>\<open>IndexError\<close>; with \<open>max_size = 0\<close> every \<open>get_recent\<close> raises
  \<^verbatim>\<open>ZeroDivisionError\<close>, with a negative \<open>max_size\<close> it returns the empty list;
  \<open>get_stats\<close> returns the empty statistics.
\<close>

theorem init_nonpositive_deferred:
  assumes "m \<le> 0"
  shows "\<exists>s. init m = Inr s \<and> buffer s = [] \<and> max_size s = m \<and> head s = 0 \<and> count s = 0 \<and>
           (\<forall>now kw. add now kw s = Inl IndexError) \<and>
           (\<forall>n. get_recent n s = (if m = 0 then Inl ZeroDivisionError else Inr [])) \<and>
           get_stats s = Inr \<lparr>total_stat = 0, by_type = []\<rparr>"
  using assms
  by (simp add: init_def add_def list_setitem_def get_recent_def Let_def py_mod_def
        py_range_def get_stats_def)

theorem init_nonpositive_deferred_witness:
  "(0::int) \<le> 0 \<and>
   init 0 = Inr \<lparr>buffer = [], max_size = 0, head = 0, count = 0\<rparr> \<and>
   add ''t1'' [(''type'', VStr ''mcp'')] \<lparr>buffer = [], max_size = 0, head = 0, count = 0\<rparr> = Inl IndexError \<and>
   get_recent 10 \<lparr>buffer = [], max_size = 0, head = 0, count = 0\<rparr> = Inl ZeroDivisionError"
  using init_nonpositive_deferred[of 0] by (auto simp: init_def)

section \<open>Statistics\<close>

text \<open>A \<^verbatim>\<open>type\<close> value that is a list: \<open>get_stats\<close> raises and reports no total.\<close>

theorem stats_total_unhashable_counterexample:
  "session 2 (add_calls [(''t1'', [(''type'', VList [VStr ''mcp''])])])
     = Inr \<lparr>buffer = [Some [(''timestamp'', VStr ''t1''), (''type'', VList [VStr ''mcp''])], None],
             max_size = 2, head = 1, count = 1\<rparr>
   \<and> get_stats \<lparr>buffer = [Some [(''timestamp'', VStr ''t1''), (''type'', VList [VStr ''mcp''])], None],
             max_size = 2, head = 1, count = 1\<rparr> = Inl TypeError"
  by code_simp

text \<open>
  Claim C4 (amended). For a log of capacity \<open>c \<ge> 1\<close> and \<open>k\<close> calls of \<open>add\<close> whose retained
  entries have hashable \<^verbatim>\<open>type\<close> values, \<open>get_stats\<close> returns with total \<open>k\<close> when
  \<open>k \<le> c\<close> and total \<open>c\<close> otherwise. The claim as written, for every sequence of calls,
  fails when a retained entry has an unhashable \<^verbatim>\<open>type\<close> value: \<open>get_stats\<close> raises
  \<^verbatim>\<open>TypeError\<close> and reports no total.
\<close>

theorem stats_total_after_adds:
  assumes "1 \<le> c" "list_all type_ok (kept c (add_calls adds))"
  shows "\<exists>s r. session c (add_calls adds) = Inr s \<and> get_stats s = Inr r \<and>
           total_stat r = (if int (length adds) \<le> c then int (length adds) else c)"
proof -
  obtain s where s: "session c (add_calls adds) = Inr s"
    "get_stats s = stats_of (kept c (add_calls adds))"
    using session_stats[OF assms(1)] by blast
  obtain r where r: "stats_of (kept c (add_calls adds)) = Inr r"
    "total_stat r = int (length (kept c (add_calls adds)))"
    using stats_of_ok[OF assms(2)] by blast
  have "int (length (kept c (add_calls adds))) = (if int (length adds) \<le> c then int (length adds) else c)"
    using assms(1) by (auto simp: kept_def length_lastn history_adds)
  then show ?thesis using s r by simp
qed

theorem stats_total_after_adds_witness:
  "(1::int) \<le> 2 \<and>
   list_all type_ok (kept 2 (add_calls [(''t1'', [(''type'', VStr ''mcp'')]), (''t2'', []),
                                        (''t3'', [(''type'', VStr ''a2a'')])])) \<and>
   (\<exists>s r. session 2 (add_calls [(''t1'', [(''type'', VStr ''mcp'')]), (''t2'', []),
                                 (''t3'', [(''type'', VStr ''a2a'')])]) = Inr s \<and>
          get_stats s = Inr r \<and> total_stat r = 2)"
proof -
  let ?adds = "[(''t1'', [(''type'', VStr ''mcp'')]), (''t2'', []), (''t3'', [(''type'', VStr ''a2a'')])]"
  have k: "kept 2 (add_calls ?adds) = [[(''timestamp'', VStr ''t2'')],
             [(''timestamp'', VStr ''t3''), (''type'', VStr ''a2a'')]]"
    by code_simp
  have h: "list_all type_ok (kept 2 (add_calls ?adds))"
    by (simp add: k type_ok_def)
  from stats_total_after_adds[of 2 ?adds, OF _ h] show ?thesis
    using h by simp
qed

text \<open>A \<^verbatim>\<open>type\<close> value that is a dictionary: \<open>get_stats\<close> raises and returns no result.\<close>

theorem stats_by_type_unhashable_counterexample:
  "session 10 [Add ''t1'' [(''type'', VStr ''mcp'')],
               Add ''t2'' [(''type'', VDict [(''kind'', VStr ''a2a'')])]]
     = Inr \<lparr>buffer = [Some [(''timestamp'', VStr ''t1''), (''type'', VStr ''mcp'')],
                      Some [(''timestamp'', VStr ''t2''), (''type'', VDict [(''kind'', VStr ''a2a'')])],
                      None, None, None, None, None, None, None, None],
             max_size = 10, head = 2, count = 2\<rparr>
   \<and> get_stats \<lparr>buffer = [Some [(''timestamp'', VStr ''t1''), (''type'', VStr ''mcp'')],
                      Some [(''timestamp'', VStr ''t2''), (''type'', VDict [(''kind'', VStr ''a2a'')])],
                      None, None, None, None, None, None, None, None],
             max_size = 10, head = 2, count = 2\<rparr> = Inl TypeError"
  by code_simp

text \<open>
  Claim C5 (amended). In every state reached by a log of capacity \<open>c \<ge> 1\<close> in which every
  retained entry that has a \<^verbatim>\<open>type\<close> field has a hashable value there, \<open>get_stats\<close> returns:
  the total is the number of retained entries; the per-type counts, summed, plus the number
  of retained entries without a \<^verbatim>\<open>type\<close> field equal the total; the bucket of a value
  counts exactly the retained entries whose \<^verbatim>\<open>type\<close> is that value (under Python's key
  equality), so an entry without the field is in no bucket; no key occurs twice.
  With an unhashable \<^verbatim>\<open>type\<close> value (a list or a dictionary) among the retained entries
  \<open>get_stats\<close> raises \<^verbatim>\<open>TypeError\<close> instead, as the counterexample shows.
\<close>

theorem stats_by_type_sum:
  assumes "1 \<le> c" "list_all type_ok (kept c cs)"
  shows "\<exists>s r. session c cs = Inr s \<and> get_stats s = Inr r \<and>
           total_stat r = int (length (kept c cs)) \<and>
           sum_list (map snd (by_type r)) + int (length (filter untyped (kept c cs))) = total_stat r \<and>
           (\<forall>t. counts_get (by_type r) t 0 = int (length (filter (has_type t) (kept c cs)))) \<and>
           distinct (norm_keys (by_type r))"
proof -
  obtain s where s: "session c cs = Inr s" "get_stats s = stats_of (kept c cs)"
    using session_stats[OF assms(1)] by blast
  from stats_of_ok[OF assms(2)] s show ?thesis by auto
qed

theorem stats_by_type_sum_witness:
  "(1::int) \<le> 10 \<and>
   list_all type_ok (kept 10 [Add ''t1'' [(''type'', VStr ''mcp'')], Add ''t2'' [(''type'', VStr ''mcp'')],
               Add ''t3'' [(''type'', VStr ''mcp'')], Add ''t4'' [(''type'', VStr ''a2a'')],
               Add ''t5'' [(''type'', VStr ''a2a'')]]) \<and>
   (\<exists>s r. session 10 [Add ''t1'' [(''type'', VStr ''mcp'')], Add ''t2'' [(''type'', VStr ''mcp'')],
               Add ''t3'' [(''type'', VStr ''mcp'')], Add ''t4'' [(''type'', VStr ''a2a'')],
               Add ''t5'' [(''type'', VStr ''a2a'')]] = Inr s \<and>
          get_stats s = Inr r \<and>
          r = \<lparr>total_stat = 5, by_type = [(VStr ''mcp'', 3), (VStr ''a2a'', 2)]\<rparr> \<and>
          sum_list (map snd (by_type r)) + 0 = total_stat r \<and>
          counts_get (by_type r) (VStr ''mcp'') 0 = 3)"
proof -
  let ?cs = "[Add ''t1'' [(''type'', VStr ''mcp'')], Add ''t2'' [(''type'', VStr ''mcp'')],
               Add ''t3'' [(''type'', VStr ''mcp'')], Add ''t4'' [(''type'', VStr ''a2a'')],
               Add ''t5'' [(''type'', VStr ''a2a'')]]"
  have h: "list_all type_ok (kept 10 ?cs)"
    by (simp add: example_kept_mcp_a2a type_ok_def)
  from stats_by_type_sum[of 10 ?cs, OF _ h] show ?thesis
    using h by (auto simp: example_session_mcp_a2a example_stats_mcp_a2a py_eq_def)
qed

section \<open>Clearing\<close>

text \<open>A log constructed with capacity 0 and cleared: \<open>get_recent\<close> raises
  \<^verbatim>\<open>ZeroDivisionError\<close> instead of returning the empty list.\<close>

theorem clear_then_read_counterexample:
  "session 0 [Clear] = Inr \<lparr>buffer = [], max_size = 0, head = 0, count = 0\<rparr> \<and>
   clear \<lparr>buffer = [], max_size = 0, head = 0, count = 0\<rparr>
     = \<lparr>buffer = [], max_size = 0, head = 0, count = 0\<rparr> \<and>
   get_recent 10 (clear \<lparr>buffer = [], max_size = 0, head = 0, count = 0\<rparr>)
     = Inl ZeroDivisionError"
  by (simp add: session_def init_def clear_def get_recent_def py_mod_def)

text \<open>
  Claim C6 (amended). In every state reached by a log of capacity \<open>c \<ge> 1\<close>, the reads that
  follow \<open>clear\<close> are empty whatever the log held: \<open>get_recent n\<close> is the empty list for
  every integer \<open>n\<close>, and \<open>get_stats\<close> is a total of 0 with no per-type count.
\<close>

theorem clear_then_read_empty:
  assumes "1 \<le> c"
  shows "\<exists>s. session c cs = Inr s \<and>
           (\<forall>n. get_recent n (clear s) = Inr []) \<and>
           get_stats (clear s) = Inr \<lparr>total_stat = 0, by_type = []\<rparr>"
proof -
  obtain s where s: "session c cs = Inr s" "max_size s = c"
    using session_wf[OF assms] by blast
  have "max_size (clear s) \<noteq> 0" using s(2) assms by (simp add: clear_def)
  moreover have "\<And>n. min n (count (clear s)) \<le> 0" by (simp add: clear_def)
  ultimately have "\<forall>n. get_recent n (clear s) = Inr []"
    by (simp add: get_recent_none)
  moreover have "get_stats (clear s) = Inr \<lparr>total_stat = 0, by_type = []\<rparr>"
    by (simp add: get_stats_def clear_def py_range_def)
  ultimately show ?thesis using s(1) by blast
qed

theorem clear_then_read_empty_witness:
  "(1::int) \<le> 2 \<and>
   (\<exists>s. session 2 [Add ''t1'' [(''type'', VStr ''mcp'')], Add ''t2'' [], Add ''t3'' []] = Inr s \<and>
        get_recent 2 (clear s) = Inr [] \<and> get_recent (-1) (clear s) = Inr [] \<and>
        get_stats (clear s) = Inr \<lparr>total_stat = 0, by_type = []\<rparr>)"
  using clear_then_read_empty[of 2 "[Add ''t1'' [(''type'', VStr ''mcp'')], Add ''t2'' [], Add ''t3'' []]"]
  by auto

text \<open>
  Claim C7. In every state reached by a log of capacity \<open>c \<ge> 1\<close>, \<open>clear\<close> sets \<open>head\<close>
  and \<open>count\<close> to 0 and leaves the slot array and the capacity as they were, so the old
  entries stay in their slots. No read exposes them: after any further calls \<open>cs'\<close>,
  \<open>get_recent\<close> returns only entries added by \<open>cs'\<close> and \<open>get_stats\<close> is the statistics of
  those entries alone.
\<close>

theorem clear_keeps_storage:
  assumes "1 \<le> c"
  shows "\<exists>s. session c cs = Inr s \<and>
           buffer (clear s) = buffer s \<and> max_size (clear s) = max_size s \<and>
           head (clear s) = 0 \<and> count (clear s) = 0 \<and>
           (\<exists>s'. run (clear s) cs' = Inr s' \<and>
                 count s' = min (int (length (history cs'))) c \<and>
                 (\<forall>n. get_recent n s' = Inr (lastn (nat (min n (count s'))) (history cs'))) \<and>
                 get_stats s' = stats_of (kept c cs'))"
proof -
  obtain s where s: "session c cs = Inr s" "wf_log s" "max_size s = c"
    using session_stats[OF assms] by blast
  have wc: "wf_log (clear s)" by (rule wf_clear[OF s(2)])
  obtain s' where s': "run (clear s) cs' = Inr s'" "wf_log s'"
    "retained s' = lastn (nat (max_size (clear s))) (foldl record_call (retained (clear s)) cs')"
    using run_wf[OF wc, of cs'] by blast
  have r: "retained s' = kept c cs'"
    by (simp add: s'(3) retained_clear max_size_clear s(3) kept_def history_def)
  have "\<forall>n. get_recent n s' = Inr (lastn (nat (min n (count s'))) (history cs'))"
  proof
    fix n
    have "nat (min n (count s')) \<le> nat c"
      using assms by (simp add: count_retained[OF s'(2)] r kept_def length_lastn)
    then show "get_recent n s' = Inr (lastn (nat (min n (count s'))) (history cs'))"
      by (simp only: get_recent_window[OF s'(2)] r kept_def lastn_lastn)
  qed
  moreover have "get_stats s' = stats_of (kept c cs')"
    by (simp only: get_stats_window[OF s'(2)] r)
  moreover have "count s' = min (int (length (history cs'))) c"
    using assms by (simp add: count_retained[OF s'(2)] r kept_def length_lastn)
  ultimately show ?thesis using s(1) s'(1) by (auto simp: clear_def)
qed

theorem clear_keeps_storage_witness:
  "(1::int) \<le> 3 \<and>
   (\<exists>s. session 3 [Add ''t1'' [(''tool'', VStr ''A'')], Add ''t2'' [(''tool'', VStr ''B'')],
              Add ''t3'' [(''tool'', VStr ''C'')]] = Inr s \<and>
      buffer (clear s) = [Some [(''timestamp'', VStr ''t1''), (''tool'', VStr ''A'')],
                          Some [(''timestamp'', VStr ''t2''), (''tool'', VStr ''B'')],
                          Some [(''timestamp'', VStr ''t3''), (''tool'', VStr ''C'')]] \<and>
      head (clear s) = 0 \<and> count (clear s) = 0 \<and>
      (\<exists>s'. run (clear s) [Add ''t4'' [(''tool'', VStr ''D'')]] = Inr s' \<and>
            get_recent 10 s' = Inr [[(''timestamp'', VStr ''t4''), (''tool'', VStr ''D'')]]))"
proof -
  have h: "history [Add ''t4'' [(''tool'', VStr ''D'')]] = [[(''timestamp'', VStr ''t4''), (''tool'', VStr ''D'')]]"
    by code_simp
  show ?thesis
    using clear_keeps_storage[of 3 "[Add ''t1'' [(''tool'', VStr ''A'')], Add ''t2'' [(''tool'', VStr ''B'')],
              Add ''t3'' [(''tool'', VStr ''C'')]]" "[Add ''t4'' [(''tool'', VStr ''D'')]]"]
    by (auto simp: example_session_abc h clear_def lastn_def)
qed

section \<open>The timestamp of an entry\<close>

text \<open>
  A caller that passes a \<^verbatim>\<open>timestamp\<close> field replaces the time stamp of the log.
\<close>

theorem caller_timestamp_counterexample:
  "init 2 = Inr \<lparr>buffer = [None, None], max_size = 2, head = 0, count = 0\<rparr> \<and>
   add ''2026-01-01T00:00:00+00:00'' [(''timestamp'', VStr ''forged''), (''type'', VStr ''mcp'')]
       \<lparr>buffer = [None, None], max_size = 2, head = 0, count = 0\<rparr>
     = Inr \<lparr>buffer = [Some [(''timestamp'', VStr ''forged''), (''type'', VStr ''mcp'')], None],
             max_size = 2, head = 1, count = 1\<rparr> \<and>
   get_recent 1 \<lparr>buffer = [Some [(''timestamp'', VStr ''forged''), (''type'', VStr ''mcp'')], None],
             max_size = 2, head = 1, count = 1\<rparr>
     = Inr [[(''timestamp'', VStr ''forged''), (''type'', VStr ''mcp'')]]"
  by code_simp

text \<open>
  Claim C8 (amended). The entry stored by \<open>add\<close> is the dictionary display
  \<^verbatim>\<open>{"timestamp": now, **kwargs}\<close>, built before the slot is written: it has every field
  of the caller with the caller's value, and a \<^verbatim>\<open>timestamp\<close> field whose value is the log's
  time stamp when the caller passed no \<^verbatim>\<open>timestamp\<close> field, and the caller's value
  otherwise. Every entry returned by \<open>get_recent\<close> has a \<^verbatim>\<open>timestamp\<close> field. The time
  stamp \<open>now\<close> is an input of the model.
\<close>

theorem stored_entry_timestamp:
  assumes "1 \<le> c"
  shows "\<exists>s s'. session c cs = Inr s \<and> add now kw s = Inr s' \<and>
           buffer s' = (buffer s)[nat (head s) := Some (new_entry now kw)] \<and>
           get_recent 1 s' = Inr [new_entry now kw] \<and>
           (\<forall>k. map_of (new_entry now kw) k =
                  (case map_of (rev kw) k of
                     Some v \<Rightarrow> Some v
                   | None \<Rightarrow> if k = ''timestamp'' then Some (VStr now) else None)) \<and>
           (\<forall>n. \<exists>r. get_recent n s' = Inr r \<and> list_all has_timestamp r)"
proof -
  let ?e = "new_entry now kw"
  obtain s where s: "session c cs = Inr s" "wf_log s" "max_size s = c" "retained s = kept c cs"
    using session_stats[OF assms] by blast
  let ?t = "after_add ?e s"
  have st: "add now kw s = Inr ?t" by (rule add_Inr[OF s(2)])
  have wt: "wf_log ?t" by (rule wf_after_add[OF s(2)])
  have rt: "retained ?t = lastn (nat c) (kept c cs @ [?e])"
    by (simp add: retained_after_add[OF s(2)] s(3) s(4))
  have ts: "list_all has_timestamp (retained ?t)"
    unfolding rt
    by (rule has_timestamp_lastn) (simp add: has_timestamp_kept has_timestamp_new_entry)
  have "0 \<le> count s" "1 \<le> max_size s" using s(2) by (simp_all add: wf_log_def)
  then have c1: "nat (min 1 (count ?t)) = 1" by (simp add: after_add_def)
  have "1 \<le> nat c" using assms by simp
  then have "lastn 1 (retained ?t) = lastn 1 (kept c cs @ [?e])"
    by (simp only: rt lastn_lastn)
  then have g1: "get_recent 1 ?t = Inr [?e]"
    by (simp add: get_recent_window[OF wt] c1 lastn_def)
  have "\<forall>n. \<exists>r. get_recent n ?t = Inr r \<and> list_all has_timestamp r"
    by (simp add: get_recent_window[OF wt] has_timestamp_lastn[OF ts])
  moreover have "buffer ?t = (buffer s)[nat (head s) := Some ?e]"
    by (simp add: after_add_def)
  ultimately show ?thesis using s(1) st g1 map_of_new_entry by blast
qed

theorem stored_entry_timestamp_witness:
  "(1::int) \<le> 2 \<and>
   (\<exists>s s'. session 2 [Add ''t1'' []] = Inr s \<and>
      add ''t2'' [(''type'', VStr ''mcp''), (''tool'', VStr ''getPrice'')] s = Inr s' \<and>
      get_recent 1 s' = Inr [[(''timestamp'', VStr ''t2''), (''type'', VStr ''mcp''),
                              (''tool'', VStr ''getPrice'')]] \<and>
      map_of (new_entry ''t2'' [(''type'', VStr ''mcp''), (''tool'', VStr ''getPrice'')]) ''timestamp''
        = Some (VStr ''t2''))"
proof -
  have e: "new_entry ''t2'' [(''type'', VStr ''mcp''), (''tool'', VStr ''getPrice'')]
           = [(''timestamp'', VStr ''t2''), (''type'', VStr ''mcp''), (''tool'', VStr ''getPrice'')]"
    by code_simp
  show ?thesis
    using stored_entry_timestamp[of 2 "[Add ''t1'' []]" "''t2''"
            "[(''type'', VStr ''mcp''), (''tool'', VStr ''getPrice'')]"]
    by (auto simp: e)
qed

end
